theory Spec2Isabelle
  imports Complex_Main "HOL-Library.Sublist"
begin

section \<open>Python strings\<close>

text \<open>
  A Python \<^verbatim>\<open>str\<close> is a sequence of Unicode code points. A code point is modelled
  by its ordinal (what \<^verbatim>\<open>ord\<close> returns), a string by the list of its ordinals, so that
  the characters above 127, which \<^verbatim>\<open>escape_paragraph_text\<close> deletes, are ordinary
  values. Every Python string is such a list (with all ordinals below \<open>0x110000\<close>), and
  the theorems below hold for all lists.
\<close>

type_synonym pychar = nat
type_synonym pystr = "pychar list"

text \<open>An ASCII literal of the source, as a Python string.\<close>

definition lit :: "string \<Rightarrow> pystr" where
  "lit s = map of_char s"

text \<open>The characters the source names: \<^verbatim>\<open><\<close>, \<^verbatim>\<open>>\<close> and the newline.\<close>

definition LT :: pychar where "LT = 60"
definition GT :: pychar where "GT = 62"
definition NL :: pychar where "NL = 10"

section \<open>The regular expressions of \<^verbatim>\<open>app.py\<close>\<close>

text \<open>
  \<^verbatim>\<open>re.sub(r'<[^>]+>', '', text)\<close> scans the text from the left. At a position where the
  pattern matches, the match is deleted and the scan goes on behind it; elsewhere the
  character is kept and the scan moves one character on.

  \<open>tag_match s\<close> is the match of \<^verbatim>\<open><[^>]+>\<close> at the start of \<open>s\<close> (what \<^verbatim>\<open>re.match\<close> finds),
  given by the text behind it. The class \<^verbatim>\<open>[^>]\<close> accepts every character but \<^verbatim>\<open>>\<close>, the
  newline and \<^verbatim>\<open><\<close> included; the greedy \<^verbatim>\<open>+\<close> takes the longest run of them, which must
  have one character at least and must be followed by \<^verbatim>\<open>>\<close>. A shorter run is followed
  by a character of the run, never by \<^verbatim>\<open>>\<close>, so backtracking finds no other match.
\<close>

definition tag_match :: "pystr \<Rightarrow> pystr option" where
  "tag_match s =
     (case s of
        [] \<Rightarrow> None
      | c # cs \<Rightarrow>
          if c = LT \<and> takeWhile (\<lambda>d. d \<noteq> GT) cs \<noteq> [] \<and> dropWhile (\<lambda>d. d \<noteq> GT) cs \<noteq> []
          then Some (tl (dropWhile (\<lambda>d. d \<noteq> GT) cs))
          else None)"

lemma tag_match_shorter: "tag_match s = Some r \<Longrightarrow> length r < length s"
proof -
  assume m: "tag_match s = Some r"
  then obtain c cs where s: "s = c # cs" and r: "r = tl (dropWhile (\<lambda>d. d \<noteq> GT) cs)"
    by (auto simp: tag_match_def split: list.splits if_splits)
  have "length (dropWhile (\<lambda>d. d \<noteq> GT) cs) \<le> length cs"
    by (rule length_dropWhile_le)
  then show ?thesis using s r by simp
qed

function remove_tags :: "pystr \<Rightarrow> pystr" where
  "remove_tags [] = []"
| "remove_tags (c # cs) =
     (case tag_match (c # cs) of
        Some r \<Rightarrow> remove_tags r
      | None \<Rightarrow> c # remove_tags cs)"
  by pat_completeness auto
termination
  by (relation "measure length") (auto dest: tag_match_shorter)

text \<open>
  \<^verbatim>\<open>re.sub(r'[^\x00-\x7F]+', '', text)\<close>: a match is a longest run of characters outside
  0..127, and it is deleted.
\<close>

function remove_non_ascii :: "pystr \<Rightarrow> pystr" where
  "remove_non_ascii [] = []"
| "remove_non_ascii (c # cs) =
     (if 127 < c then remove_non_ascii (dropWhile (\<lambda>d. 127 < d) cs)
      else c # remove_non_ascii cs)"
  by pat_completeness auto
termination
  by (relation "measure length") (auto simp: less_Suc_eq_le length_dropWhile_le)

text \<open>\<^verbatim>\<open>escape_paragraph_text\<close>: the tags go first, then the characters outside ASCII.\<close>

definition escape_paragraph_text :: "pystr \<Rightarrow> pystr" where
  "escape_paragraph_text text = remove_non_ascii (remove_tags text)"

subsection \<open>What a tag-like substring is\<close>

text \<open>
  A string matches \<^verbatim>\<open><[^>]+>\<close> as a whole when it is \<^verbatim>\<open><\<close>, one or more characters
  other than \<^verbatim>\<open>>\<close>, and \<^verbatim>\<open>>\<close>. A text contains a tag-like substring when one of its
  substrings matches.
\<close>

definition matches_tag :: "pystr \<Rightarrow> bool" where
  "matches_tag m = (\<exists>mid. m = LT # mid @ [GT] \<and> mid \<noteq> [] \<and> GT \<notin> set mid)"

definition contains_tag :: "pystr \<Rightarrow> bool" where
  "contains_tag s = (\<exists>pre m post. s = pre @ m @ post \<and> matches_tag m)"

text \<open>The same as a search from the left (\<^verbatim>\<open>re.search\<close>), which computes.\<close>

fun has_tag :: "pystr \<Rightarrow> bool" where
  "has_tag [] = False"
| "has_tag (c # cs) = (tag_match (c # cs) \<noteq> None \<or> has_tag cs)"

section \<open>Whitespace: \<^verbatim>\<open>str.strip()\<close> and \<^verbatim>\<open>str.split()\<close>\<close>

text \<open>
  Both methods, called without an argument, use Python's notion of whitespace
  (\<^verbatim>\<open>str.isspace\<close> of one character): the code points below.
\<close>

definition isspace :: "pychar \<Rightarrow> bool" where
  "isspace c =
     ((9 \<le> c \<and> c \<le> 13) \<or> (28 \<le> c \<and> c \<le> 32) \<or> c = 133 \<or> c = 160 \<or> c = 5760 \<or>
      (8192 \<le> c \<and> c \<le> 8202) \<or> c = 8232 \<or> c = 8233 \<or> c = 8239 \<or> c = 8287 \<or> c = 12288)"

text \<open>\<^verbatim>\<open>text.strip()\<close>: the whitespace at the left end goes, then that at the right end.\<close>

definition py_strip :: "pystr \<Rightarrow> pystr" where
  "py_strip s = rev (dropWhile isspace (rev (dropWhile isspace s)))"

text \<open>
  \<^verbatim>\<open>line.split()\<close>: skip whitespace; if the text ends there, stop; else the word is the
  longest run of characters that are not whitespace, and the scan goes on behind it.
\<close>

lemma dropWhile_Cons_shorter:
  "dropWhile P s = c # cs \<Longrightarrow> length (dropWhile Q cs) < length s"
proof -
  assume d: "dropWhile P s = c # cs"
  have "length (dropWhile Q cs) \<le> length cs" by (rule length_dropWhile_le)
  moreover have "length (dropWhile P s) \<le> length s" by (rule length_dropWhile_le)
  ultimately show ?thesis using d by simp
qed

function split_ws :: "pystr \<Rightarrow> pystr list" where
  "split_ws s =
     (case dropWhile isspace s of
        [] \<Rightarrow> []
      | c # cs \<Rightarrow>
          (c # takeWhile (\<lambda>d. \<not> isspace d) cs) # split_ws (dropWhile (\<lambda>d. \<not> isspace d) cs))"
  by pat_completeness auto
termination
  by (relation "measure length") (auto dest: dropWhile_Cons_shorter)

declare split_ws.simps [simp del]

section \<open>\<^verbatim>\<open>str.split(sep)\<close> and \<^verbatim>\<open>str.join\<close>\<close>

datatype error =
    ValueError
  | UnicodeEncodeError
  | LibraryError pystr

text \<open>
  \<^verbatim>\<open>s.split(sep)\<close> cuts at the occurrences of \<open>sep\<close>, found from the left and not
  overlapping; the pieces keep their order and empty pieces are kept. \<open>cur\<close> is the piece
  read so far. An empty separator raises \<^verbatim>\<open>ValueError\<close>.
\<close>

function split_from :: "pystr \<Rightarrow> pystr \<Rightarrow> pystr \<Rightarrow> pystr list" where
  "split_from sep cur [] = [cur]"
| "split_from sep cur (c # cs) =
     (if sep \<noteq> [] \<and> take (length sep) (c # cs) = sep
      then cur # split_from sep [] (drop (length sep) (c # cs))
      else split_from sep (cur @ [c]) cs)"
  by pat_completeness auto
termination
  by (relation "measure (\<lambda>(sep, cur, s). length s)") auto

definition py_split :: "pystr \<Rightarrow> pystr \<Rightarrow> error + pystr list" where
  "py_split s sep = (if sep = [] then Inl ValueError else Inr (split_from sep [] s))"

text \<open>\<^verbatim>\<open>sep.join(pieces)\<close>.\<close>

fun py_join :: "pystr \<Rightarrow> pystr list \<Rightarrow> pystr" where
  "py_join sep [] = []"
| "py_join sep [x] = x"
| "py_join sep (x # y # ys) = x @ sep @ py_join sep (y # ys)"

section \<open>\<^verbatim>\<open>clean_text\<close>\<close>

definition clean_text :: "pystr \<Rightarrow> pystr" where
  "clean_text text = py_strip (remove_tags text)"

section \<open>\<^verbatim>\<open>is_title\<close>\<close>

text \<open>
  \<^verbatim>\<open>str.isupper\<close> reads the case of each character from the Unicode character database:
  a character is uppercase, lowercase, titlecase or has no case. For ASCII the table is
  written out. For the code points above 127 it is a parameter \<open>ucd\<close> of the model.
\<close>

datatype casing = Upper | Lower | Titlecase | Uncased

definition ascii_casing :: "pychar \<Rightarrow> casing" where
  "ascii_casing c =
     (if 65 \<le> c \<and> c \<le> 90 then Upper
      else if 97 \<le> c \<and> c \<le> 122 then Lower
      else Uncased)"

definition char_casing :: "(pychar \<Rightarrow> casing) \<Rightarrow> pychar \<Rightarrow> casing" where
  "char_casing ucd c = (if c < 128 then ascii_casing c else ucd c)"

text \<open>
  The loop of \<^verbatim>\<open>str.isupper\<close>: a lowercase or titlecase character ends it with False; the
  flag \<open>cased\<close> records that an uppercase character was seen, and is the result at the
  end of the string.
\<close>

fun isupper_loop :: "(pychar \<Rightarrow> casing) \<Rightarrow> bool \<Rightarrow> pystr \<Rightarrow> bool" where
  "isupper_loop ucd cased [] = cased"
| "isupper_loop ucd cased (ch # rest) =
     (if char_casing ucd ch = Lower \<or> char_casing ucd ch = Titlecase then False
      else if \<not> cased \<and> char_casing ucd ch = Upper then isupper_loop ucd True rest
      else isupper_loop ucd cased rest)"

definition py_isupper :: "(pychar \<Rightarrow> casing) \<Rightarrow> pystr \<Rightarrow> bool" where
  "py_isupper ucd s = isupper_loop ucd False s"

definition is_title :: "(pychar \<Rightarrow> casing) \<Rightarrow> pystr \<Rightarrow> bool" where
  "is_title ucd line = (py_isupper ucd line \<and> length (split_ws line) < 10)"

subsection \<open>The classification in the specification's words\<close>

text \<open>
  A character is cased when it is uppercase, lowercase or titlecase. A word starts at
  every character that is not whitespace and stands first in the line or behind a
  whitespace character; the number of such positions is the number of
  whitespace-separated words.
\<close>

definition is_cased :: "(pychar \<Rightarrow> casing) \<Rightarrow> pychar \<Rightarrow> bool" where
  "is_cased ucd c = (char_casing ucd c \<noteq> Uncased)"

definition all_uppercase :: "(pychar \<Rightarrow> casing) \<Rightarrow> pystr \<Rightarrow> bool" where
  "all_uppercase ucd line =
     ((\<exists>c \<in> set line. is_cased ucd c) \<and>
      (\<forall>c \<in> set line. is_cased ucd c \<longrightarrow> char_casing ucd c = Upper))"

definition word_starts :: "pystr \<Rightarrow> nat set" where
  "word_starts line =
     {i. i < length line \<and> \<not> isspace (line ! i) \<and> (i = 0 \<or> isspace (line ! (i - 1)))}"

definition word_count :: "pystr \<Rightarrow> nat" where
  "word_count line = card (word_starts line)"

text \<open>
  For the proofs: the word starts of a text that follows a whitespace character
  (\<open>b\<close> true) or a character of a word (\<open>b\<close> false), and their number by recursion.
\<close>

definition starts_after :: "bool \<Rightarrow> pystr \<Rightarrow> nat set" where
  "starts_after b s =
     {i. i < length s \<and> \<not> isspace (s ! i) \<and> (if i = 0 then b else isspace (s ! (i - 1)))}"

fun count_starts :: "bool \<Rightarrow> pystr \<Rightarrow> nat" where
  "count_starts b [] = 0"
| "count_starts b (c # cs) = (if \<not> isspace c \<and> b then 1 else 0) + count_starts (isspace c) cs"

section \<open>The document composer\<close>

subsection \<open>The content of the output document\<close>

text \<open>
  The flowables of the PDF library that the source creates. \<^verbatim>\<open>normal_style\<close> is the
  entry \<^verbatim>\<open>'Normal'\<close> of the library's sample style sheet; \<^verbatim>\<open>title_style\<close> is the style the
  source makes itself, with its name, font size and space after. Lengths are in points,
  as exact reals (the source computes them in floating point).
\<close>

datatype paragraph_style =
    SampleStyle string
  | ParagraphStyle string real real

datatype flowable =
    Paragraph pystr paragraph_style
  | Spacer real real
  | PageBreak

definition inch :: real where
  "inch = 72"

definition letter :: "real \<times> real" where
  "letter = (8.5 * inch, 11 * inch)"

definition normal_style :: paragraph_style where
  "normal_style = SampleStyle ''Normal''"

definition title_style :: paragraph_style where
  "title_style = ParagraphStyle ''Title'' 14 12"

record doc_template =
  pagesize :: "real \<times> real"
  leftMargin :: real
  rightMargin :: real
  topMargin :: real
  bottomMargin :: real

subsection \<open>The libraries the pipeline calls\<close>

text \<open>
  The rasteriser, the image operations, the OCR engine, the PDF library, the console and
  the file system are outside the repository. They are parameters of the model; each
  call may raise, which is the \<open>Inl\<close> of its result. \<open>paragraph_markup\<close> is the markup
  parser that the library's \<^verbatim>\<open>Paragraph\<close> constructor runs on its text, \<open>console_print\<close>
  is \<^verbatim>\<open>print\<close> writing one line to standard output; each gives the exception it
  raises, if any.
\<close>

record ('img, 'pdf) env =
  os_path_exists :: "pystr \<Rightarrow> bool"
  convert_from_path :: "pystr \<Rightarrow> error + 'img list"
  image_convert :: "'img \<Rightarrow> string \<Rightarrow> error + 'img"
  contrast_enhance :: "'img \<Rightarrow> real \<Rightarrow> error + 'img"
  filter_sharpen :: "'img \<Rightarrow> error + 'img"
  image_to_string :: "'img \<Rightarrow> string \<Rightarrow> string \<Rightarrow> error + pystr"
  doc_build :: "doc_template \<Rightarrow> flowable list \<Rightarrow> error + 'pdf"
  unicode_casing :: "pychar \<Rightarrow> casing"
  paragraph_markup :: "pystr \<Rightarrow> error option"
  console_print :: "pystr \<Rightarrow> error option"

definition preprocess_image :: "('img, 'pdf) env \<Rightarrow> 'img \<Rightarrow> error + 'img" where
  "preprocess_image e img =
     (case image_convert e img ''L'' of
        Inl x \<Rightarrow> Inl x
      | Inr gray_image \<Rightarrow>
          (case contrast_enhance e gray_image 2 of
             Inl x \<Rightarrow> Inl x
           | Inr enhanced_image \<Rightarrow> filter_sharpen e enhanced_image))"

definition pdf_to_images :: "('img, 'pdf) env \<Rightarrow> pystr \<Rightarrow> error + 'img list" where
  "pdf_to_images e pdf_path = convert_from_path e pdf_path"

definition extract_text_from_image :: "('img, 'pdf) env \<Rightarrow> 'img \<Rightarrow> error + pystr" where
  "extract_text_from_image e img =
     (case preprocess_image e img of
        Inl x \<Rightarrow> Inl x
      | Inr preprocessed_image \<Rightarrow>
          (case image_to_string e preprocessed_image ''por'' ''--oem 3 --psm 6'' of
             Inl x \<Rightarrow> Inl x
           | Inr text \<Rightarrow> Inr (clean_text text)))"

subsection \<open>The paragraph constructor\<close>

text \<open>
  \<^verbatim>\<open>Paragraph(line, style)\<close> parses the line as markup when the paragraph is made, and
  raises when the markup is broken: an unclosed tag behind \<^verbatim>\<open><\<close>, a character reference
  behind \<^verbatim>\<open>&\<close> that is out of range. A line of printable ASCII characters with neither
  \<^verbatim>\<open><\<close> nor \<^verbatim>\<open>&\<close> has no markup and is accepted. On every other line the parser decides,
  and may raise.
\<close>

definition AMP :: pychar where "AMP = 38"

definition plain_text :: "pystr \<Rightarrow> bool" where
  "plain_text line = list_all (\<lambda>c. 32 \<le> c \<and> c \<le> 126 \<and> c \<noteq> LT \<and> c \<noteq> AMP) line"

definition paragraph_error :: "('img, 'pdf) env \<Rightarrow> pystr \<Rightarrow> error option" where
  "paragraph_error e line = (if plain_text line then None else paragraph_markup e line)"

definition make_paragraph ::
  "('img, 'pdf) env \<Rightarrow> pystr \<Rightarrow> paragraph_style \<Rightarrow> error + flowable" where
  "make_paragraph e line style =
     (case paragraph_error e line of
        Some x \<Rightarrow> Inl x
      | None \<Rightarrow> Inr (Paragraph line style))"

subsection \<open>The loops of \<^verbatim>\<open>pdf_to_single_output_pdf\<close>\<close>

text \<open>
  \<open>content\<close> is the list the source appends to. Each loop takes it and returns it
  extended, and stops at the first exception of a library call.
\<close>

fun lines_loop ::
  "('img, 'pdf) env \<Rightarrow> pystr list \<Rightarrow> flowable list \<Rightarrow> error + flowable list" where
  "lines_loop e [] content = Inr content"
| "lines_loop e (l # rest) content =
     (let line = escape_paragraph_text l in
      if is_title (unicode_casing e) line
      then
        (case make_paragraph e line title_style of
           Inl x \<Rightarrow> Inl x
         | Inr p \<Rightarrow> lines_loop e rest (content @ [p]))
      else
        (case make_paragraph e line normal_style of
           Inl x \<Rightarrow> Inl x
         | Inr p \<Rightarrow> lines_loop e rest (content @ [p])))"

fun paragraphs_loop ::
  "('img, 'pdf) env \<Rightarrow> pystr list \<Rightarrow> flowable list \<Rightarrow> error + flowable list" where
  "paragraphs_loop e [] content = Inr content"
| "paragraphs_loop e (paragraph # rest) content =
     (case py_split paragraph [NL] of
        Inl x \<Rightarrow> Inl x
      | Inr lines \<Rightarrow>
          (case lines_loop e lines content of
             Inl x \<Rightarrow> Inl x
           | Inr content' \<Rightarrow> paragraphs_loop e rest (content' @ [Spacer 1 (0.2 * inch)])))"

fun pages_loop :: "('img, 'pdf) env \<Rightarrow> 'img list \<Rightarrow> flowable list \<Rightarrow> error + flowable list" where
  "pages_loop e [] content = Inr content"
| "pages_loop e (img # rest) content =
     (case extract_text_from_image e img of
        Inl x \<Rightarrow> Inl x
      | Inr text \<Rightarrow>
          (case py_split text [NL, NL] of
             Inl x \<Rightarrow> Inl x
           | Inr paragraphs \<Rightarrow>
               (case paragraphs_loop e paragraphs content of
                  Inl x \<Rightarrow> Inl x
                | Inr content' \<Rightarrow> pages_loop e rest (content' @ [PageBreak]))))"

subsection \<open>\<^verbatim>\<open>pdf_to_single_output_pdf\<close>\<close>

text \<open>
  A run of the function: the lines it has printed, and how it ends. \<open>Inl x\<close> is an
  exception that reaches the caller (the source has no \<^verbatim>\<open>try\<close>), \<open>Inr None\<close> the bare
  \<^verbatim>\<open>return\<close> (the caller gets \<^verbatim>\<open>None\<close>), \<open>Inr (Some b)\<close> the bytes of the generated PDF.
\<close>

record 'pdf run =
  console :: "pystr list"
  outcome :: "error + 'pdf option"

definition missing_file_message :: "pystr \<Rightarrow> pystr" where
  "missing_file_message input_pdf_path =
     lit ''O arquivo '' @ input_pdf_path @ lit '' n'' @ [227] @ lit ''o existe.''"

definition the_doc :: doc_template where
  "the_doc = \<lparr>pagesize = letter, leftMargin = 0.5 * inch, rightMargin = 0.5 * inch,
              topMargin = 1.0 * inch, bottomMargin = 0.5 * inch\<rparr>"

text \<open>
  The part of the function between the rasteriser and the renderer: \<open>content\<close> starts
  empty and the loop over the page images fills it.
\<close>

definition build_content :: "('img, 'pdf) env \<Rightarrow> 'img list \<Rightarrow> error + flowable list" where
  "build_content e images = pages_loop e images []"

definition pdf_to_single_output_pdf :: "('img, 'pdf) env \<Rightarrow> pystr \<Rightarrow> 'pdf run" where
  "pdf_to_single_output_pdf e input_pdf_path =
     (if \<not> os_path_exists e input_pdf_path
      then
        (case console_print e (missing_file_message input_pdf_path) of
           Some x \<Rightarrow> \<lparr>console = [], outcome = Inl x\<rparr>
         | None \<Rightarrow> \<lparr>console = [missing_file_message input_pdf_path], outcome = Inr None\<rparr>)
      else
        (case pdf_to_images e input_pdf_path of
           Inl x \<Rightarrow> \<lparr>console = [], outcome = Inl x\<rparr>
         | Inr images \<Rightarrow>
             (case build_content e images of
                Inl x \<Rightarrow> \<lparr>console = [], outcome = Inl x\<rparr>
              | Inr content \<Rightarrow>
                  (case doc_build e the_doc content of
                     Inl x \<Rightarrow> \<lparr>console = [], outcome = Inl x\<rparr>
                   | Inr bytes \<Rightarrow> \<lparr>console = [], outcome = Inr (Some bytes)\<rparr>))))"

subsection \<open>The loops in closed form\<close>

text \<open>
  What one line, one paragraph and one page add to \<open>content\<close>, and when the paragraph
  constructor accepts all their lines. The lemmas \<open>lines_loop_eq\<close>,
  \<open>paragraphs_loop_eq\<close> and \<open>pages_loop_eq\<close> prove that the loops compute them.
\<close>

definition line_flowable :: "(pychar \<Rightarrow> casing) \<Rightarrow> pystr \<Rightarrow> flowable" where
  "line_flowable ucd l =
     (let line = escape_paragraph_text l in
      if is_title ucd line then Paragraph line title_style else Paragraph line normal_style)"

definition paragraph_flowables :: "(pychar \<Rightarrow> casing) \<Rightarrow> pystr \<Rightarrow> flowable list" where
  "paragraph_flowables ucd paragraph =
     map (line_flowable ucd) (split_from [NL] [] paragraph) @ [Spacer 1 (0.2 * inch)]"

definition page_flowables :: "(pychar \<Rightarrow> casing) \<Rightarrow> pystr \<Rightarrow> flowable list" where
  "page_flowables ucd text =
     concat (map (paragraph_flowables ucd) (split_from [NL, NL] [] text)) @ [PageBreak]"

definition line_accepted :: "('img, 'pdf) env \<Rightarrow> pystr \<Rightarrow> bool" where
  "line_accepted e l = (paragraph_error e (escape_paragraph_text l) = None)"

definition paragraph_accepted :: "('img, 'pdf) env \<Rightarrow> pystr \<Rightarrow> bool" where
  "paragraph_accepted e paragraph = list_all (line_accepted e) (split_from [NL] [] paragraph)"

definition page_accepted :: "('img, 'pdf) env \<Rightarrow> pystr \<Rightarrow> bool" where
  "page_accepted e text = list_all (paragraph_accepted e) (split_from [NL, NL] [] text)"

text \<open>A page image whose text is extracted and whose lines are all accepted.\<close>

definition page_text :: "('img, 'pdf) env \<Rightarrow> 'img \<Rightarrow> pystr \<Rightarrow> bool" where
  "page_text e img text = (extract_text_from_image e img = Inr text \<and> page_accepted e text)"

subsection \<open>An environment to run the pipeline in\<close>

text \<open>
  Only \<^verbatim>\<open>temp.pdf\<close> exists; it has two pages. An image is represented by the text the OCR
  engine reads from it, the image operations leave it alone, and the renderer returns
  the content it is given. The second page is blank. The markup parser accepts every
  line. The console encodes its output strictly: a line with a surrogate code point
  (\<open>0xD800\<close> to \<open>0xDFFF\<close>) cannot be encoded, and printing it raises.
\<close>

definition sample_page :: pystr where
  "sample_page =
     lit ''TITLE HERE'' @ [NL, NL] @ lit ''Body text line one'' @ [NL] @ lit ''Body text line two''"

definition sample_env :: "(pystr, flowable list) env" where
  "sample_env =
     \<lparr>os_path_exists = (\<lambda>p. p = lit ''temp.pdf''),
      convert_from_path = (\<lambda>p. Inr [sample_page, []]),
      image_convert = (\<lambda>i m. Inr i),
      contrast_enhance = (\<lambda>i f. Inr i),
      filter_sharpen = (\<lambda>i. Inr i),
      image_to_string = (\<lambda>i l c. Inr i),
      doc_build = (\<lambda>d c. Inr c),
      unicode_casing = (\<lambda>c. Uncased),
      paragraph_markup = (\<lambda>s. None),
      console_print =
        (\<lambda>s. if list_ex (\<lambda>c. 55296 \<le> c \<and> c \<le> 57343) s then Some UnicodeEncodeError else None)\<rparr>"

section \<open>Lemmas\<close>

subsection \<open>Tag removal\<close>

lemma filter_dropWhile_not: "filter Q (dropWhile (\<lambda>x. \<not> Q x) xs) = filter Q xs"
  by (induction xs) auto

lemma remove_non_ascii_filter: "remove_non_ascii s = filter (\<lambda>c. c < 128) s"
proof (induction s rule: remove_non_ascii.induct)
  case 1 show ?case by simp
next
  case (2 c cs)
  have eq: "(\<lambda>d::nat. 127 < d) = (\<lambda>d. \<not> d < 128)" by auto
  show ?case using 2 filter_dropWhile_not[of "\<lambda>c. c < 128" cs] by (auto simp: eq)
qed

lemma tag_match_None_iff:
  "tag_match (c # cs) = None \<longleftrightarrow> c \<noteq> LT \<or> cs = [] \<or> hd cs = GT \<or> GT \<notin> set cs"
  by (cases cs) (auto simp: tag_match_def dropWhile_eq_Nil_conv takeWhile_eq_Nil_iff)

lemma tag_match_Some:
  assumes "tag_match s = Some r"
  shows "\<exists>mid. s = LT # mid @ GT # r \<and> mid \<noteq> [] \<and> GT \<notin> set mid"
proof -
  from assms obtain cs where s: "s = LT # cs"
    and tw: "takeWhile (\<lambda>d. d \<noteq> GT) cs \<noteq> []"
    and dw: "dropWhile (\<lambda>d. d \<noteq> GT) cs \<noteq> []"
    and r: "r = tl (dropWhile (\<lambda>d. d \<noteq> GT) cs)"
    by (auto simp: tag_match_def split: list.splits if_splits)
  from dw obtain y ys where d: "dropWhile (\<lambda>d. d \<noteq> GT) cs = y # ys"
    by (cases "dropWhile (\<lambda>d. d \<noteq> GT) cs") auto
  then have y: "y = GT" and cs: "cs = takeWhile (\<lambda>d. d \<noteq> GT) cs @ GT # ys"
    by (auto simp: dropWhile_eq_Cons_conv)
  have "GT \<notin> set (takeWhile (\<lambda>d. d \<noteq> GT) cs)"
    by (auto dest: set_takeWhileD)
  with s tw cs r d show ?thesis by auto
qed

lemma tag_match_tag:
  assumes "mid \<noteq> []" "GT \<notin> set mid"
  shows "tag_match (LT # mid @ GT # r) = Some r"
proof -
  have "takeWhile (\<lambda>d. d \<noteq> GT) (mid @ GT # r) = mid"
    using assms(2) by (induction mid) auto
  moreover have "dropWhile (\<lambda>d. d \<noteq> GT) (mid @ GT # r) = GT # r"
    using assms(2) by (induction mid) auto
  ultimately show ?thesis using assms by (simp add: tag_match_def)
qed

lemma suffix_tag_match: "tag_match s = Some r \<Longrightarrow> suffix r s"
  by (auto dest!: tag_match_Some simp: suffix_def)

lemma subseq_remove_tags: "subseq (remove_tags s) s"
proof (induction s rule: remove_tags.induct)
  case 1 show ?case by simp
next
  case (2 c cs)
  show ?case
  proof (cases "tag_match (c # cs)")
    case None
    with 2 show ?thesis by simp
  next
    case (Some r)
    with 2 have "subseq (remove_tags r) r" by simp
    moreover have "subseq r (c # cs)" using Some by (intro suffix_imp_subseq suffix_tag_match)
    ultimately show ?thesis using Some by simp
  qed
qed

lemma set_remove_tags: "set (remove_tags s) \<subseteq> set s"
  using subseq_remove_tags[of s] by (auto elim: list_emb_set)

lemma tag_match_remove_tags:
  assumes "tag_match (c # cs) = None"
  shows "tag_match (c # remove_tags cs) = None"
proof (cases cs)
  case Nil then show ?thesis using assms by (simp add: tag_match_None_iff)
next
  case (Cons d ds)
  show ?thesis
  proof (cases "c = LT \<and> d \<noteq> GT")
    case False
    then show ?thesis
    proof (cases "c = LT")
      case True
      with False have "d = GT" by simp
      then have "remove_tags cs = GT # remove_tags ds"
        using Cons by (simp add: tag_match_def LT_def GT_def)
      then show ?thesis by (simp add: tag_match_None_iff)
    qed (simp add: tag_match_None_iff)
  next
    case True
    with assms Cons have "GT \<notin> set cs" by (auto simp: tag_match_None_iff)
    then have "GT \<notin> set (remove_tags cs)" using set_remove_tags by blast
    then show ?thesis by (simp add: tag_match_None_iff)
  qed
qed

lemma has_tag_remove_tags: "\<not> has_tag (remove_tags s)"
proof (induction s rule: remove_tags.induct)
  case 1 show ?case by simp
next
  case (2 c cs)
  show ?case
  proof (cases "tag_match (c # cs)")
    case None
    with 2 tag_match_remove_tags[OF None] show ?thesis by simp
  next
    case (Some r)
    with 2 show ?thesis by simp
  qed
qed

lemma has_tag_filter:
  assumes "P LT" "P GT"
  shows "\<not> has_tag s \<Longrightarrow> \<not> has_tag (filter P s)"
proof (induction s)
  case Nil show ?case by simp
next
  case (Cons c cs)
  then have n: "tag_match (c # cs) = None" and ih: "\<not> has_tag (filter P cs)" by auto
  show ?case
  proof (cases "P c")
    case False with ih show ?thesis by simp
  next
    case True
    have "tag_match (c # filter P cs) = None"
    proof (cases cs)
      case Nil then show ?thesis by (simp add: tag_match_None_iff)
    next
      case (Cons d ds)
      from n consider "c \<noteq> LT" | "d = GT" | "GT \<notin> set cs"
        using Cons by (auto simp: tag_match_None_iff)
      then show ?thesis
      proof cases
        case 2 then show ?thesis using Cons assms by (simp add: tag_match_None_iff)
      qed (auto simp: tag_match_None_iff)
    qed
    with ih True show ?thesis by simp
  qed
qed

lemma has_tag_append: "has_tag t \<Longrightarrow> has_tag (pre @ t)"
  by (induction pre) auto

lemma has_tag_iff_contains_tag: "has_tag s \<longleftrightarrow> contains_tag s"
proof
  show "has_tag s \<Longrightarrow> contains_tag s"
  proof (induction s)
    case Nil then show ?case by simp
  next
    case (Cons c cs)
    show ?case
    proof (cases "tag_match (c # cs)")
      case (Some r)
      then obtain mid where "c # cs = LT # mid @ GT # r" "mid \<noteq> []" "GT \<notin> set mid"
        by (auto dest!: tag_match_Some)
      then have "c # cs = [] @ (LT # mid @ [GT]) @ r \<and> matches_tag (LT # mid @ [GT])"
        by (auto simp: matches_tag_def)
      then show ?thesis unfolding contains_tag_def by blast
    next
      case None
      with Cons obtain pre m post where "cs = pre @ m @ post" "matches_tag m"
        by (auto simp: contains_tag_def)
      then have "c # cs = (c # pre) @ m @ post \<and> matches_tag m" by simp
      then show ?thesis unfolding contains_tag_def by blast
    qed
  qed
next
  assume "contains_tag s"
  then obtain pre mid post where s: "s = pre @ (LT # mid @ [GT]) @ post" and m: "mid \<noteq> []" "GT \<notin> set mid"
    by (auto simp: contains_tag_def matches_tag_def)
  have "has_tag (LT # mid @ GT # post)"
    using tag_match_tag[OF m, of post] by simp
  then show "has_tag s" using s has_tag_append[of "LT # mid @ GT # post" pre] by simp
qed

lemma remove_tags_id: "\<not> has_tag s \<Longrightarrow> remove_tags s = s"
  by (induction s) auto

lemma remove_tags_segments:
  "\<exists>segs. s = concat (map (\<lambda>(keep, tag). keep @ tag) segs) \<and>
          remove_tags s = concat (map fst segs) \<and>
          list_all (\<lambda>(keep, tag). tag = [] \<or> matches_tag tag) segs"
proof (induction s rule: remove_tags.induct)
  case 1
  have "[] = concat (map (\<lambda>(keep, tag). keep @ tag) []) \<and> remove_tags [] = concat (map fst []) \<and>
     list_all (\<lambda>(keep, tag). tag = [] \<or> matches_tag tag) []" by simp
  then show ?case by blast
next
  case (2 c cs)
  show ?case
  proof (cases "tag_match (c # cs)")
    case None
    with 2 obtain segs where segs: "cs = concat (map (\<lambda>(keep, tag). keep @ tag) segs)"
       "remove_tags cs = concat (map fst segs)"
       "list_all (\<lambda>(keep, tag). tag = [] \<or> matches_tag tag) segs" by auto
    let ?segs = "([c], []) # segs"
    have "c # cs = concat (map (\<lambda>(keep, tag). keep @ tag) ?segs) \<and>
          remove_tags (c # cs) = concat (map fst ?segs) \<and>
          list_all (\<lambda>(keep, tag). tag = [] \<or> matches_tag tag) ?segs"
      using segs None by simp
    then show ?thesis by blast
  next
    case (Some r)
    with 2 obtain segs where segs: "r = concat (map (\<lambda>(keep, tag). keep @ tag) segs)"
       "remove_tags r = concat (map fst segs)"
       "list_all (\<lambda>(keep, tag). tag = [] \<or> matches_tag tag) segs" by auto
    from Some obtain mid where m: "c # cs = LT # mid @ GT # r" "mid \<noteq> []" "GT \<notin> set mid"
      by (auto dest!: tag_match_Some)
    let ?segs = "([], LT # mid @ [GT]) # segs"
    have "matches_tag (LT # mid @ [GT])" using m by (auto simp: matches_tag_def)
    then have "c # cs = concat (map (\<lambda>(keep, tag). keep @ tag) ?segs) \<and>
          remove_tags (c # cs) = concat (map fst ?segs) \<and>
          list_all (\<lambda>(keep, tag). tag = [] \<or> matches_tag tag) ?segs"
      using segs Some m(1) by simp
    then show ?thesis by blast
  qed
qed

subsection \<open>Splitting and joining\<close>

lemma split_from_nonempty: "split_from sep cur s \<noteq> []"
  by (induction sep cur s rule: split_from.induct) auto

lemma py_join_Cons: "xs \<noteq> [] \<Longrightarrow> py_join sep (x # xs) = x @ sep @ py_join sep xs"
  by (cases xs) auto

lemma py_join_split_from: "py_join sep (split_from sep cur s) = cur @ s"
proof (induction sep cur s rule: split_from.induct)
  case (1 sep cur) show ?case by simp
next
  case (2 sep cur c cs)
  show ?case
  proof (cases "sep \<noteq> [] \<and> take (length sep) (c # cs) = sep")
    case True
    then have "py_join sep (split_from sep cur (c # cs))
        = cur @ sep @ py_join sep (split_from sep [] (drop (length sep) (c # cs)))"
      by (simp add: py_join_Cons split_from_nonempty del: take_Suc_Cons drop_Suc_Cons)
    also have "\<dots> = cur @ sep @ drop (length sep) (c # cs)"
      using 2(1) True by simp
    also have "\<dots> = cur @ take (length sep) (c # cs) @ drop (length sep) (c # cs)"
      using True by simp
    finally show ?thesis by (simp only: append_take_drop_id)
  next
    case False
    with 2(2) show ?thesis by auto
  qed
qed

subsection \<open>The loop of \<^verbatim>\<open>str.isupper\<close>\<close>

lemma isupper_loop_iff:
  "isupper_loop ucd cased s \<longleftrightarrow>
     (cased \<or> (\<exists>c \<in> set s. char_casing ucd c = Upper)) \<and>
     (\<forall>c \<in> set s. char_casing ucd c \<noteq> Lower \<and> char_casing ucd c \<noteq> Titlecase)"
  by (induction ucd cased s rule: isupper_loop.induct) auto

lemma py_isupper_iff: "py_isupper ucd s \<longleftrightarrow> all_uppercase ucd s"
proof -
  have c: "\<And>c. is_cased ucd c \<longleftrightarrow> char_casing ucd c \<in> {Upper, Lower, Titlecase}"
    unfolding is_cased_def by (case_tac "char_casing ucd c") auto
  show ?thesis
    unfolding py_isupper_def isupper_loop_iff all_uppercase_def c
    by (auto; metis casing.exhaust)
qed

subsection \<open>Stripping\<close>

lemma rev_dropWhile_takeWhile: "xs = rev (dropWhile P (rev xs)) @ rev (takeWhile P (rev xs))"
proof -
  have "rev (takeWhile P (rev xs) @ dropWhile P (rev xs)) = rev (rev xs)"
    by (simp only: takeWhile_dropWhile_id)
  then show ?thesis by (simp only: rev_append rev_rev_ident)
qed

lemma py_strip_decomp:
  "\<exists>l r. s = l @ py_strip s @ r \<and> list_all isspace l \<and> list_all isspace r"
proof -
  define t where "t = dropWhile isspace s"
  have s: "s = takeWhile isspace s @ t" by (simp add: t_def)
  have t: "t = py_strip s @ rev (takeWhile isspace (rev t))"
    unfolding py_strip_def t_def by (rule rev_dropWhile_takeWhile)
  have 1: "list_all isspace (takeWhile isspace s)"
    by (auto simp: list_all_iff dest: set_takeWhileD)
  have 2: "list_all isspace (rev (takeWhile isspace (rev t)))"
    by (auto simp: list_all_iff dest: set_takeWhileD)
  from s t have "s = takeWhile isspace s @ py_strip s @ rev (takeWhile isspace (rev t))" by simp
  with 1 2 show ?thesis by blast
qed

lemma py_strip_last: "py_strip s \<noteq> [] \<Longrightarrow> \<not> isspace (last (py_strip s))"
  unfolding py_strip_def by (simp add: last_rev hd_dropWhile)

lemma py_strip_hd: assumes "py_strip s \<noteq> []" shows "\<not> isspace (hd (py_strip s))"
proof -
  define t where "t = dropWhile isspace s"
  have t: "t = py_strip s @ rev (takeWhile isspace (rev t))"
    unfolding py_strip_def t_def by (rule rev_dropWhile_takeWhile)
  with assms have "hd t = hd (py_strip s)" and "t \<noteq> []" by (metis hd_append2, auto)
  moreover have "\<not> isspace (hd t)" using \<open>t \<noteq> []\<close> unfolding t_def by (rule hd_dropWhile)
  ultimately show ?thesis by simp
qed

lemma contains_tag_infix: "contains_tag t \<Longrightarrow> contains_tag (l @ t @ r)"
proof -
  assume "contains_tag t"
  then obtain pre m post where "t = pre @ m @ post" "matches_tag m" by (auto simp: contains_tag_def)
  then have "l @ t @ r = (l @ pre) @ m @ (post @ r) \<and> matches_tag m" by simp
  then show ?thesis unfolding contains_tag_def by blast
qed

subsection \<open>Counting words\<close>

lemma word_starts_eq: "word_starts s = starts_after True s"
  by (auto simp: word_starts_def starts_after_def split: if_splits)

lemma finite_starts_after: "finite (starts_after b s)"
  by (simp add: starts_after_def)

lemma starts_after_Cons:
  "starts_after b (c # cs) =
     (if \<not> isspace c \<and> b then {0} else {}) \<union> Suc ` starts_after (isspace c) cs"
proof (intro set_eqI iffI)
  fix i assume "i \<in> starts_after b (c # cs)"
  then show "i \<in> (if \<not> isspace c \<and> b then {0} else {}) \<union> Suc ` starts_after (isspace c) cs"
  proof (cases i)
    case 0
    assume "i \<in> starts_after b (c # cs)"
    with 0 show ?thesis by (auto simp: starts_after_def)
  next
    case (Suc j)
    assume "i \<in> starts_after b (c # cs)"
    with Suc have "j \<in> starts_after (isspace c) cs"
      by (cases j) (auto simp: starts_after_def)
    with Suc show ?thesis by auto
  qed
next
  fix i assume "i \<in> (if \<not> isspace c \<and> b then {0} else {}) \<union> Suc ` starts_after (isspace c) cs"
  then consider "i = 0" "\<not> isspace c" "b" | j where "i = Suc j" "j \<in> starts_after (isspace c) cs"
    by (auto split: if_splits)
  then show "i \<in> starts_after b (c # cs)"
  proof cases
    case 1 then show ?thesis by (simp add: starts_after_def)
  next
    case 2 then show ?thesis by (cases j) (auto simp: starts_after_def)
  qed
qed

lemma card_starts_after: "card (starts_after b s) = count_starts b s"
proof (induction s arbitrary: b)
  case Nil show ?case by (simp add: starts_after_def)
next
  case (Cons c cs)
  have "card (Suc ` starts_after (isspace c) cs) = count_starts (isspace c) cs"
    using Cons by (simp add: card_image)
  moreover have "card ({0} \<union> Suc ` starts_after (isspace c) cs)
      = Suc (card (Suc ` starts_after (isspace c) cs))"
    by (subst card_Un_disjoint) (auto simp: finite_starts_after)
  ultimately show ?case by (auto simp: starts_after_Cons)
qed

lemma count_starts_skip_space: "count_starts True (dropWhile isspace s) = count_starts True s"
  by (induction s) auto

lemma count_starts_skip_word:
  "count_starts True (dropWhile (\<lambda>d. \<not> isspace d) s) = count_starts False s"
proof (induction s)
  case Nil show ?case by simp
next
  case (Cons c cs) 
  show ?case
  proof (cases "isspace c")
    case True then show ?thesis by simp
  next
    case False with Cons show ?thesis by simp
  qed
qed

lemma length_split_ws: "length (split_ws s) = count_starts True s"
proof (induction s rule: split_ws.induct)
  case (1 s)
  show ?case
  proof (cases "dropWhile isspace s")
    case Nil
    have "split_ws s = []"
      by (subst split_ws.simps) (simp only: Nil list.case)
    moreover have "count_starts True s = 0"
      using count_starts_skip_space[of s] unfolding Nil by simp
    ultimately show ?thesis by simp
  next
    case (Cons c cs)
    then have nc: "\<not> isspace c" using hd_dropWhile[of isspace s] by auto
    have "length (split_ws s) = Suc (length (split_ws (dropWhile (\<lambda>d. \<not> isspace d) cs)))"
      using Cons by (simp add: split_ws.simps[of s])
    also have "\<dots> = Suc (count_starts True (dropWhile (\<lambda>d. \<not> isspace d) cs))"
      using 1[OF Cons] by simp
    also have "\<dots> = count_starts True (c # cs)"
      using nc by (simp add: count_starts_skip_word)
    also have "\<dots> = count_starts True s"
      using Cons count_starts_skip_space[of s] by simp
    finally show ?thesis .
  qed
qed

lemma length_split_ws_word_count: "length (split_ws s) = word_count s"
  by (simp add: word_count_def word_starts_eq card_starts_after length_split_ws)


subsection \<open>The loops of the composer\<close>

lemma py_split_Inr: "sep \<noteq> [] \<Longrightarrow> py_split s sep = Inr (split_from sep [] s)"
  by (simp add: py_split_def)

lemma lines_loop_eq:
  "list_all (line_accepted e) ls \<Longrightarrow>
   lines_loop e ls content = Inr (content @ map (line_flowable (unicode_casing e)) ls)"
  by (induction ls arbitrary: content)
     (auto simp: line_flowable_def line_accepted_def make_paragraph_def Let_def)

lemma lines_loop_Inr:
  "lines_loop e ls content = Inr c \<Longrightarrow> list_all (line_accepted e) ls"
  by (induction ls arbitrary: content)
     (auto simp: line_accepted_def make_paragraph_def Let_def
           split: if_splits option.splits sum.splits)

lemma paragraphs_loop_eq:
  "list_all (paragraph_accepted e) ps \<Longrightarrow>
   paragraphs_loop e ps content =
   Inr (content @ concat (map (paragraph_flowables (unicode_casing e)) ps))"
  by (induction ps arbitrary: content)
     (auto simp: py_split_Inr lines_loop_eq paragraph_flowables_def paragraph_accepted_def)

lemma paragraphs_loop_Inr:
  "paragraphs_loop e ps content = Inr c \<Longrightarrow> list_all (paragraph_accepted e) ps"
  by (induction ps arbitrary: content)
     (auto simp: py_split_Inr paragraph_accepted_def split: sum.splits dest: lines_loop_Inr)

lemma pages_loop_Cons:
  "page_text e img t \<Longrightarrow>
   pages_loop e (img # rest) content =
   pages_loop e rest (content @ page_flowables (unicode_casing e) t)"
  by (simp add: page_text_def page_accepted_def py_split_Inr paragraphs_loop_eq
      page_flowables_def)

lemma pages_loop_Cons_Inr:
  assumes "pages_loop e (img # rest) content = Inr c"
  shows "\<exists>t. page_text e img t"
proof -
  from assms obtain t content'
    where t: "extract_text_from_image e img = Inr t"
      and p: "paragraphs_loop e (split_from [NL, NL] [] t) content = Inr content'"
    by (auto simp: py_split_Inr split: sum.splits)
  from p have "page_accepted e t"
    unfolding page_accepted_def by (rule paragraphs_loop_Inr)
  with t show ?thesis unfolding page_text_def by blast
qed

lemma pages_loop_eq:
  "list_all2 (page_text e) images texts \<Longrightarrow>
   pages_loop e images content =
   Inr (content @ concat (map (page_flowables (unicode_casing e)) texts))"
proof (induction images texts arbitrary: content rule: list_all2_induct)
  case Nil show ?case by simp
next
  case (Cons img t images texts)
  show ?case using Cons.hyps(1) Cons.IH by (simp only: pages_loop_Cons) simp
qed

lemma pages_loop_texts:
  "pages_loop e images content = Inr c \<Longrightarrow> \<exists>texts. list_all2 (page_text e) images texts"
proof (induction images arbitrary: content)
  case Nil show ?case by simp
next
  case (Cons img images)
  from pages_loop_Cons_Inr[OF Cons.prems] obtain t where t: "page_text e img t" by blast
  with Cons.prems
  have "pages_loop e images (content @ page_flowables (unicode_casing e) t) = Inr c"
    by (simp only: pages_loop_Cons)
  then obtain texts where "list_all2 (page_text e) images texts"
    using Cons.IH by blast
  with t have "list_all2 (page_text e) (img # images) (t # texts)" by simp
  then show ?case by blast
qed

lemma line_flowable_Paragraph:
  "\<exists>st. line_flowable ucd l = Paragraph (escape_paragraph_text l) st"
  by (simp add: line_flowable_def Let_def)

lemma PageBreak_paragraph_flowables: "PageBreak \<notin> set (paragraph_flowables ucd p)"
  by (auto simp: paragraph_flowables_def line_flowable_def Let_def)

lemma page_flowables_body:
  "\<exists>body. page_flowables ucd text = body @ [PageBreak] \<and> PageBreak \<notin> set body"
  by (auto simp: page_flowables_def PageBreak_paragraph_flowables)

lemma count_PageBreak_page: "length (filter (\<lambda>f. f = PageBreak) (page_flowables ucd text)) = 1"
proof -
  obtain body where "page_flowables ucd text = body @ [PageBreak]" "PageBreak \<notin> set body"
    using page_flowables_body by blast
  then show ?thesis by (auto simp: filter_empty_conv)
qed

lemma count_PageBreak_pages:
  "length (filter (\<lambda>f. f = PageBreak) (concat (map (page_flowables ucd) texts))) = length texts"
  by (induction texts) (auto simp: count_PageBreak_page)

lemma paragraph_in_page:
  "Paragraph line st \<in> set (page_flowables ucd text) \<Longrightarrow> \<exists>l. line = escape_paragraph_text l"
  by (auto simp: page_flowables_def paragraph_flowables_def line_flowable_def Let_def split: if_splits)

lemma escape_ascii: "c \<in> set (escape_paragraph_text x) \<Longrightarrow> c < 128"
  by (simp add: escape_paragraph_text_def remove_non_ascii_filter)

lemma escape_no_tag: "\<not> has_tag (escape_paragraph_text x)"
  unfolding escape_paragraph_text_def remove_non_ascii_filter
  by (rule has_tag_filter) (simp_all add: LT_def GT_def has_tag_remove_tags)

lemma build_content_texts:
  assumes "build_content e images = Inr content"
  shows "\<exists>texts. list_all2 (page_text e) images texts \<and>
           content = concat (map (page_flowables (unicode_casing e)) texts)"
proof -
  from assms obtain texts where t: "list_all2 (page_text e) images texts"
    unfolding build_content_def by (blast dest: pages_loop_texts)
  from pages_loop_eq[OF t, of "[]"] assms
  have "content = concat (map (page_flowables (unicode_casing e)) texts)"
    by (simp add: build_content_def)
  with t show ?thesis by blast
qed

lemma build_content_single:
  "page_text e img t \<Longrightarrow> build_content e [img] = Inr (page_flowables (unicode_casing e) t)"
  unfolding build_content_def by (simp only: pages_loop_Cons) simp

lemma texts_exist:
  "\<forall>img \<in> set images. \<exists>t. page_text e img t \<Longrightarrow>
   \<exists>texts. list_all2 (page_text e) images texts"
proof (induction images)
  case Nil show ?case by simp
next
  case (Cons img images)
  then obtain t texts where "page_text e img t" "list_all2 (page_text e) images texts"
    by auto
  then have "list_all2 (page_text e) (img # images) (t # texts)"
    by simp
  then show ?case by blast
qed

lemma plain_text_accepted: "plain_text (escape_paragraph_text l) \<Longrightarrow> line_accepted e l"
  by (simp add: line_accepted_def paragraph_error_def)

section \<open>The claims\<close>

text \<open>
  Claim C3. \<^verbatim>\<open>escape_paragraph_text\<close> is idempotent: escaping an escaped string changes
  nothing.
\<close>

theorem escape_idempotent:
  "escape_paragraph_text (escape_paragraph_text x) = escape_paragraph_text x"
proof -
  have "remove_tags (escape_paragraph_text x) = escape_paragraph_text x"
    by (rule remove_tags_id) (rule escape_no_tag)
  then show ?thesis
    by (simp add: escape_paragraph_text_def remove_non_ascii_filter)
qed

text \<open>The definitions that evaluate a concrete string.\<close>

lemmas string_eval = lit_def LT_def GT_def NL_def tag_match_def escape_paragraph_text_def
lemmas title_eval = is_title_def py_isupper_def char_casing_def ascii_casing_def lit_def
  split_ws.simps isspace_def

theorem escape_idempotent_witness:
  "escape_paragraph_text (lit ''<b>Ol'' @ [225] @ lit ''</b> <> x'') = lit ''Ol <> x'' \<and>
   escape_paragraph_text (lit ''Ol <> x'') = lit ''Ol <> x''"
proof -
  have a: "escape_paragraph_text (lit ''<b>Ol'' @ [225] @ lit ''</b> <> x'') = lit ''Ol <> x''"
    by (simp add: string_eval)
  show ?thesis
    using escape_idempotent [of "lit ''<b>Ol'' @ [225] @ lit ''</b> <> x''"]
    unfolding a by (simp add: a)
qed

text \<open>
  Claim C9. \<^verbatim>\<open>escape_paragraph_text(x)\<close> is a subsequence of \<open>x\<close>: escaping only deletes
  characters, it never inserts, replaces or reorders them, and the result is no longer
  than \<open>x\<close>.
\<close>

theorem escape_subseq:
  "subseq (escape_paragraph_text x) x \<and> length (escape_paragraph_text x) \<le> length x"
proof -
  have "subseq (filter (\<lambda>c. c < 128) (remove_tags x)) (remove_tags x)" by simp
  then have s: "subseq (escape_paragraph_text x) x"
    unfolding escape_paragraph_text_def remove_non_ascii_filter
    using subseq_remove_tags[of x] by (rule subseq_order.order_trans)
  then have "length (escape_paragraph_text x) \<le> length x"
    by (rule list_emb_length)
  with s show ?thesis by simp
qed

theorem escape_subseq_witness:
  "subseq (lit ''Hello World'') (lit ''<b>Hello</b> World'') \<and>
   length (lit ''Hello World'') \<le> length (lit ''<b>Hello</b> World'') \<and>
   escape_paragraph_text (lit ''<b>Hello</b> World'') = lit ''Hello World''"
proof -
  have a: "escape_paragraph_text (lit ''<b>Hello</b> World'') = lit ''Hello World''"
    by (simp add: string_eval)
  show ?thesis
    using escape_subseq [of "lit ''<b>Hello</b> World''"] unfolding a by (simp add: a)
qed

text \<open>
  Claim C2. \<^verbatim>\<open>is_title(line)\<close> is true if and only if the line is uppercase (it has a
  cased character, and all its cased characters are uppercase) and has fewer than 10
  whitespace-separated words; the empty line is not a title.
\<close>

theorem is_title_iff:
  "(is_title ucd line \<longleftrightarrow> all_uppercase ucd line \<and> word_count line < 10) \<and>
   \<not> is_title ucd []"
proof -
  have "is_title ucd line \<longleftrightarrow> all_uppercase ucd line \<and> word_count line < 10"
    by (simp add: is_title_def py_isupper_iff length_split_ws_word_count)
  moreover have "\<not> is_title ucd []"
    by (simp add: is_title_def py_isupper_def)
  ultimately show ?thesis by simp
qed

theorem is_title_iff_witness:
  "is_title (\<lambda>c. Uncased) (lit ''TITLE HERE'') \<and>
   all_uppercase (\<lambda>c. Uncased) (lit ''TITLE HERE'') \<and> word_count (lit ''TITLE HERE'') < 10 \<and>
   \<not> is_title (\<lambda>c. Uncased) (lit ''A B C D E F G H I J'') \<and>
   all_uppercase (\<lambda>c. Uncased) (lit ''A B C D E F G H I J'') \<and>
   \<not> word_count (lit ''A B C D E F G H I J'') < 10"
proof -
  have a: "is_title (\<lambda>c. Uncased) (lit ''TITLE HERE'')"
    by (simp add: title_eval)
  have b: "\<not> is_title (\<lambda>c. Uncased) (lit ''A B C D E F G H I J'')"
    by (simp add: title_eval)
  have c: "py_isupper (\<lambda>c. Uncased) (lit ''A B C D E F G H I J'')"
    by (simp add: title_eval)
  show ?thesis
    using is_title_iff [of "\<lambda>c. Uncased" "lit ''TITLE HERE''"]
      is_title_iff [of "\<lambda>c. Uncased" "lit ''A B C D E F G H I J''"] a b c
    by (simp add: py_isupper_iff)
qed

text \<open>
  Claim C5, as amended. For a path that does not exist and whose message \<^verbatim>\<open>print\<close> can
  write to the console, \<^verbatim>\<open>pdf_to_single_output_pdf\<close> prints that one line and returns
  \<^verbatim>\<open>None\<close>: no bytes, and no exception.
\<close>

theorem missing_input_returns_None:
  "\<not> os_path_exists e input_pdf_path \<Longrightarrow>
   console_print e (missing_file_message input_pdf_path) = None \<Longrightarrow>
   pdf_to_single_output_pdf e input_pdf_path =
     \<lparr>console = [missing_file_message input_pdf_path], outcome = Inr None\<rparr>"
  by (simp add: pdf_to_single_output_pdf_def)

theorem missing_input_returns_None_witness:
  "\<not> os_path_exists sample_env (lit ''none.pdf'') \<and>
   console_print sample_env (lit ''O arquivo none.pdf n'' @ [227] @ lit ''o existe.'') = None \<and>
   pdf_to_single_output_pdf sample_env (lit ''none.pdf'') =
     \<lparr>console = [lit ''O arquivo none.pdf n'' @ [227] @ lit ''o existe.''], outcome = Inr None\<rparr>"
proof -
  have h: "\<not> os_path_exists sample_env (lit ''none.pdf'')"
    by (simp add: sample_env_def lit_def)
  have m: "missing_file_message (lit ''none.pdf'') =
      lit ''O arquivo none.pdf n'' @ [227] @ lit ''o existe.''"
    by (simp add: missing_file_message_def lit_def)
  have c: "console_print sample_env (missing_file_message (lit ''none.pdf'')) = None"
    by (simp add: sample_env_def missing_file_message_def lit_def)
  from h c missing_input_returns_None [OF h c] show ?thesis
    by (simp only: m) simp
qed

text \<open>
  C5 as it stands fails for a missing path that the console cannot print. The path
  \<^verbatim>\<open>'\ud800.pdf'\<close> holds a lone surrogate: it does not exist, printing the message raises
  \<^verbatim>\<open>UnicodeEncodeError\<close>, and the exception reaches the caller.
\<close>

theorem missing_input_returns_None_counterexample:
  "\<not> os_path_exists sample_env ([55296] @ lit ''.pdf'') \<and>
   outcome (pdf_to_single_output_pdf sample_env ([55296] @ lit ''.pdf'')) =
     Inl UnicodeEncodeError \<and>
   console (pdf_to_single_output_pdf sample_env ([55296] @ lit ''.pdf'')) = []"
  by (simp add: pdf_to_single_output_pdf_def sample_env_def missing_file_message_def lit_def)

text \<open>The definitions that run the pipeline in the sample environment.\<close>

lemmas pipeline_eval = build_content_def extract_text_from_image_def preprocess_image_def
  pdf_to_images_def sample_env_def sample_page_def clean_text_def py_strip_def py_split_def
  make_paragraph_def paragraph_error_def plain_text_def AMP_def

text \<open>
  Claim C1. For every string \<open>x\<close>, \<^verbatim>\<open>escape_paragraph_text(x)\<close> has no character with
  ordinal 128 or more and no substring that matches \<^verbatim>\<open><[^>]+>\<close>; hence the text of every
  paragraph in the content of the output document is ASCII and free of tags.
\<close>

theorem escape_ascii_tag_free:
  "(\<forall>c \<in> set (escape_paragraph_text x). c < 128) \<and>
   \<not> contains_tag (escape_paragraph_text x) \<and>
   (\<forall>content line st.
      build_content e images = Inr content \<longrightarrow> Paragraph line st \<in> set content \<longrightarrow>
      (\<forall>c \<in> set line. c < 128) \<and> \<not> contains_tag line)"
proof -
  have a: "\<And>y. \<forall>c \<in> set (escape_paragraph_text y). c < 128"
    by (simp add: escape_ascii)
  have b: "\<And>y. \<not> contains_tag (escape_paragraph_text y)"
    using escape_no_tag by (simp add: has_tag_iff_contains_tag[symmetric])
  have c: "(\<forall>c \<in> set line. c < 128) \<and> \<not> contains_tag line"
    if built: "build_content e images = Inr content" and mem: "Paragraph line st \<in> set content"
    for content line st
  proof -
    from build_content_texts[OF built] obtain texts
      where "content = concat (map (page_flowables (unicode_casing e)) texts)" by blast
    with mem obtain t where "Paragraph line st \<in> set (page_flowables (unicode_casing e) t)"
      by auto
    then obtain l where "line = escape_paragraph_text l"
      by (blast dest: paragraph_in_page)
    with a b show ?thesis by simp
  qed
  from a b c show ?thesis by blast
qed

theorem escape_ascii_tag_free_witness:
  "escape_paragraph_text (lit ''<b>Hello</b> W'' @ [243] @ lit ''rld'') = lit ''Hello Wrld'' \<and>
   list_all (\<lambda>c. c < 128) (lit ''Hello Wrld'') \<and>
   \<not> contains_tag (lit ''Hello Wrld'') \<and>
   build_content sample_env [sample_page] =
     Inr [Paragraph (lit ''TITLE HERE'') title_style, Spacer 1 (0.2 * inch),
          Paragraph (lit ''Body text line one'') normal_style,
          Paragraph (lit ''Body text line two'') normal_style, Spacer 1 (0.2 * inch),
          PageBreak] \<and>
   list_all (\<lambda>c. c < 128) (lit ''Body text line one'') \<and>
   \<not> contains_tag (lit ''Body text line one'')"
proof -
  have a: "escape_paragraph_text (lit ''<b>Hello</b> W'' @ [243] @ lit ''rld'') = lit ''Hello Wrld''"
    by (simp add: string_eval)
  have b: "build_content sample_env [sample_page] =
     Inr [Paragraph (lit ''TITLE HERE'') title_style, Spacer 1 (0.2 * inch),
          Paragraph (lit ''Body text line one'') normal_style,
          Paragraph (lit ''Body text line two'') normal_style, Spacer 1 (0.2 * inch),
          PageBreak]"
    by (simp add: pipeline_eval string_eval title_eval)
  have c: "Paragraph (lit ''Body text line one'') normal_style \<in>
     set [Paragraph (lit ''TITLE HERE'') title_style, Spacer 1 (0.2 * inch),
          Paragraph (lit ''Body text line one'') normal_style,
          Paragraph (lit ''Body text line two'') normal_style, Spacer 1 (0.2 * inch),
          PageBreak]"
    by simp
  note t = escape_ascii_tag_free
    [of "lit ''<b>Hello</b> W'' @ [243] @ lit ''rld''" sample_env "[sample_page]"]
  from t have "\<not> contains_tag (lit ''Hello Wrld'')" unfolding a by blast
  moreover from t b c have "\<not> contains_tag (lit ''Body text line one'')" by blast
  moreover have "list_all (\<lambda>c. c < 128) (lit ''Hello Wrld'')"
    and "list_all (\<lambda>c. c < 128) (lit ''Body text line one'')"
    by (simp_all add: lit_def)
  ultimately show ?thesis using a b by simp
qed

text \<open>
  Claim C4. For a source that rasterises to \<open>N\<close> page images, the content that
  \<^verbatim>\<open>pdf_to_single_output_pdf\<close> builds has exactly \<open>N\<close> page breaks: it is the
  concatenation, in page order, of the content of each page built alone, and each of
  these ends with its only page break. The content is built whenever the text of every
  page is extracted and the paragraph constructor accepts every line of it; an
  exception of the OCR engine or of the paragraph constructor ends the run with no
  content. The content built is what the function hands to the renderer.
\<close>

theorem page_breaks:
  assumes raster: "pdf_to_images e path = Inr images"
  shows "(\<forall>content. build_content e images = Inr content \<longrightarrow>
            length (filter (\<lambda>f. f = PageBreak) content) = length images \<and>
            (\<exists>sections. content = concat sections \<and>
               list_all2 (\<lambda>img sec. build_content e [img] = Inr sec \<and>
                            (\<exists>body. sec = body @ [PageBreak] \<and> PageBreak \<notin> set body))
                 images sections)) \<and>
         ((\<forall>img \<in> set images.
              \<exists>t. extract_text_from_image e img = Inr t \<and> page_accepted e t) \<longrightarrow>
            (\<exists>content. build_content e images = Inr content)) \<and>
         (os_path_exists e path \<longrightarrow>
            outcome (pdf_to_single_output_pdf e path) =
              (case build_content e images of
                 Inl x \<Rightarrow> Inl x
               | Inr content \<Rightarrow>
                   (case doc_build e the_doc content of
                      Inl x \<Rightarrow> Inl x
                    | Inr bytes \<Rightarrow> Inr (Some bytes))))"
proof (intro conjI allI impI)
  fix content assume built: "build_content e images = Inr content"
  from build_content_texts[OF built] obtain texts
    where t: "list_all2 (page_text e) images texts"
      and c: "content = concat (map (page_flowables (unicode_casing e)) texts)" by blast
  from t have len: "length texts = length images" by (simp add: list_all2_lengthD)
  show "length (filter (\<lambda>f. f = PageBreak) content) = length images"
    unfolding c by (simp only: count_PageBreak_pages len)
  have "list_all2 (\<lambda>img sec. build_content e [img] = Inr sec \<and>
                            (\<exists>body. sec = body @ [PageBreak] \<and> PageBreak \<notin> set body))
          images (map (page_flowables (unicode_casing e)) texts)"
    unfolding list_all2_map2
    using t by (rule list_all2_mono) (simp add: build_content_single page_flowables_body)
  with c show "\<exists>sections. content = concat sections \<and>
               list_all2 (\<lambda>img sec. build_content e [img] = Inr sec \<and>
                            (\<exists>body. sec = body @ [PageBreak] \<and> PageBreak \<notin> set body))
                 images sections" by blast
next
  assume "\<forall>img \<in> set images. \<exists>t. extract_text_from_image e img = Inr t \<and> page_accepted e t"
  then have "\<forall>img \<in> set images. \<exists>t. page_text e img t"
    by (simp add: page_text_def)
  then obtain texts where "list_all2 (page_text e) images texts"
    by (blast dest: texts_exist)
  then show "\<exists>content. build_content e images = Inr content"
    unfolding build_content_def by (simp add: pages_loop_eq)
next
  assume "os_path_exists e path"
  with raster show "outcome (pdf_to_single_output_pdf e path) =
              (case build_content e images of
                 Inl x \<Rightarrow> Inl x
               | Inr content \<Rightarrow>
                   (case doc_build e the_doc content of
                      Inl x \<Rightarrow> Inl x
                    | Inr bytes \<Rightarrow> Inr (Some bytes)))"
    by (simp add: pdf_to_single_output_pdf_def split: sum.splits)
qed

theorem page_breaks_witness:
  "pdf_to_images sample_env (lit ''temp.pdf'') = Inr [sample_page, []] \<and>
   os_path_exists sample_env (lit ''temp.pdf'') \<and>
   extract_text_from_image sample_env sample_page = Inr sample_page \<and>
   page_accepted sample_env sample_page \<and>
   extract_text_from_image sample_env [] = Inr [] \<and>
   page_accepted sample_env [] \<and>
   (\<exists>content. build_content sample_env [sample_page, []] = Inr content) \<and>
   build_content sample_env [sample_page, []] =
     Inr [Paragraph (lit ''TITLE HERE'') title_style, Spacer 1 (0.2 * inch),
          Paragraph (lit ''Body text line one'') normal_style,
          Paragraph (lit ''Body text line two'') normal_style, Spacer 1 (0.2 * inch),
          PageBreak,
          Paragraph [] normal_style, Spacer 1 (0.2 * inch), PageBreak] \<and>
   length (filter (\<lambda>f. f = PageBreak)
     [Paragraph (lit ''TITLE HERE'') title_style, Spacer 1 (0.2 * inch),
          Paragraph (lit ''Body text line one'') normal_style,
          Paragraph (lit ''Body text line two'') normal_style, Spacer 1 (0.2 * inch),
          PageBreak,
          Paragraph [] normal_style, Spacer 1 (0.2 * inch), PageBreak]) = length [sample_page, []] \<and>
   outcome (pdf_to_single_output_pdf sample_env (lit ''temp.pdf'')) =
     Inr (Some
       [Paragraph (lit ''TITLE HERE'') title_style, Spacer 1 (0.2 * inch),
          Paragraph (lit ''Body text line one'') normal_style,
          Paragraph (lit ''Body text line two'') normal_style, Spacer 1 (0.2 * inch),
          PageBreak,
          Paragraph [] normal_style, Spacer 1 (0.2 * inch), PageBreak])"
proof -
  have r: "pdf_to_images sample_env (lit ''temp.pdf'') = Inr [sample_page, []]"
    by (simp add: pdf_to_images_def sample_env_def)
  have x: "os_path_exists sample_env (lit ''temp.pdf'')"
    by (simp add: sample_env_def)
  have b: "build_content sample_env [sample_page, []] =
     Inr [Paragraph (lit ''TITLE HERE'') title_style, Spacer 1 (0.2 * inch),
          Paragraph (lit ''Body text line one'') normal_style,
          Paragraph (lit ''Body text line two'') normal_style, Spacer 1 (0.2 * inch),
          PageBreak,
          Paragraph [] normal_style, Spacer 1 (0.2 * inch), PageBreak]"
    by (simp add: pipeline_eval string_eval title_eval)
  have d: "doc_build sample_env the_doc content = Inr content" for content
    by (simp add: sample_env_def)
  have x1: "extract_text_from_image sample_env sample_page = Inr sample_page"
    by (simp add: pipeline_eval string_eval isspace_def)
  have x2: "extract_text_from_image sample_env [] = Inr []"
    by (simp add: pipeline_eval)
  note t = page_breaks [OF r]
  have a1: "page_accepted sample_env sample_page"
    by (simp add: page_accepted_def paragraph_accepted_def line_accepted_def sample_page_def
        paragraph_error_def plain_text_def AMP_def string_eval)
  have a2: "page_accepted sample_env []"
    by (simp add: page_accepted_def paragraph_accepted_def line_accepted_def
        paragraph_error_def plain_text_def string_eval)
  from x1 x2 a1 a2
  have "\<forall>img \<in> set [sample_page, []].
          \<exists>t. extract_text_from_image sample_env img = Inr t \<and> page_accepted sample_env t"
    by simp
  with t have ex: "\<exists>content. build_content sample_env [sample_page, []] = Inr content"
    by blast
  from t b have "length (filter (\<lambda>f. f = PageBreak)
     [Paragraph (lit ''TITLE HERE'') title_style, Spacer 1 (0.2 * inch),
          Paragraph (lit ''Body text line one'') normal_style,
          Paragraph (lit ''Body text line two'') normal_style, Spacer 1 (0.2 * inch),
          PageBreak,
          Paragraph [] normal_style, Spacer 1 (0.2 * inch), PageBreak]) = length [sample_page, []]"
    by blast
  moreover from t x have "outcome (pdf_to_single_output_pdf sample_env (lit ''temp.pdf'')) =
     Inr (Some
       [Paragraph (lit ''TITLE HERE'') title_style, Spacer 1 (0.2 * inch),
          Paragraph (lit ''Body text line one'') normal_style,
          Paragraph (lit ''Body text line two'') normal_style, Spacer 1 (0.2 * inch),
          PageBreak,
          Paragraph [] normal_style, Spacer 1 (0.2 * inch), PageBreak])"
    unfolding b by (simp add: d)
  ultimately show ?thesis using r x x1 x2 a1 a2 ex b by blast
qed

text \<open>
  Claim C6. \<^verbatim>\<open>clean_text\<close> deletes tag-like substrings and nothing else but whitespace at
  the two ends of the whole string: its result has no tag-like substring, neither starts
  nor ends with whitespace, and is the text without its tags up to whitespace before and
  behind it.
\<close>

theorem clean_text_tag_free_stripped:
  "\<not> contains_tag (clean_text x) \<and>
   (clean_text x = [] \<or> (\<not> isspace (hd (clean_text x)) \<and> \<not> isspace (last (clean_text x)))) \<and>
   (\<exists>l r. remove_tags x = l @ clean_text x @ r \<and> list_all isspace l \<and> list_all isspace r) \<and>
   (\<exists>segs. x = concat (map (\<lambda>(keep, tag). keep @ tag) segs) \<and>
           remove_tags x = concat (map fst segs) \<and>
           list_all (\<lambda>(keep, tag). tag = [] \<or> matches_tag tag) segs)"
proof -
  obtain l r where d: "remove_tags x = l @ clean_text x @ r" "list_all isspace l" "list_all isspace r"
    unfolding clean_text_def using py_strip_decomp[of "remove_tags x"] by blast
  have "\<not> contains_tag (remove_tags x)"
    using has_tag_remove_tags by (simp add: has_tag_iff_contains_tag[symmetric])
  then have 1: "\<not> contains_tag (clean_text x)"
    using contains_tag_infix[of "clean_text x" l r] d(1) by auto
  have 2: "clean_text x = [] \<or> (\<not> isspace (hd (clean_text x)) \<and> \<not> isspace (last (clean_text x)))"
    unfolding clean_text_def using py_strip_hd py_strip_last by blast
  from 1 2 d remove_tags_segments[of x] show ?thesis by blast
qed

theorem clean_text_tag_free_stripped_witness:
  "clean_text (lit ''  <b>x</b> '' @ [NL] @ lit '' y <> '' @ [NL]) =
     lit ''x '' @ [NL] @ lit '' y <>'' \<and>
   \<not> contains_tag (lit ''x '' @ [NL] @ lit '' y <>'') \<and>
   \<not> isspace (hd (lit ''x '' @ [NL] @ lit '' y <>'')) \<and>
   \<not> isspace (last (lit ''x '' @ [NL] @ lit '' y <>''))"
proof -
  have a: "clean_text (lit ''  <b>x</b> '' @ [NL] @ lit '' y <> '' @ [NL]) =
     lit ''x '' @ [NL] @ lit '' y <>''"
    by (simp add: clean_text_def py_strip_def isspace_def string_eval)
  have n: "lit ''x '' @ [NL] @ lit '' y <>'' \<noteq> []"
    by (simp add: lit_def)
  from clean_text_tag_free_stripped [of "lit ''  <b>x</b> '' @ [NL] @ lit '' y <> '' @ [NL]"] n
  show ?thesis unfolding a by blast
qed

text \<open>
  Claim C7. Splitting a page text on two newlines and each paragraph on one newline
  loses nothing: both splits succeed, and joining the lines of each paragraph with a
  newline and the paragraphs with two newlines gives the text back. The paragraphs and
  lines of this decomposition, in their order, are what \<^verbatim>\<open>pdf_to_single_output_pdf\<close>
  lays out for a page with that text.
\<close>

theorem split_join_roundtrip:
  "(\<exists>paragraphs liness.
      py_split t [NL, NL] = Inr paragraphs \<and>
      list_all2 (\<lambda>p ls. py_split p [NL] = Inr ls) paragraphs liness) \<and>
   (\<forall>paragraphs liness.
      py_split t [NL, NL] = Inr paragraphs \<longrightarrow>
      list_all2 (\<lambda>p ls. py_split p [NL] = Inr ls) paragraphs liness \<longrightarrow>
      py_join [NL, NL] (map (py_join [NL]) liness) = t) \<and>
   (\<forall>paragraphs liness content.
      py_split t [NL, NL] = Inr paragraphs \<longrightarrow>
      list_all2 (\<lambda>p ls. py_split p [NL] = Inr ls) paragraphs liness \<longrightarrow>
      extract_text_from_image e img = Inr t \<longrightarrow>
      build_content e [img] = Inr content \<longrightarrow>
      content =
        concat (map (\<lambda>ls. map (line_flowable (unicode_casing e)) ls @ [Spacer 1 (0.2 * inch)])
                  liness) @ [PageBreak])"
proof (intro conjI allI impI)
  have "list_all2 (\<lambda>p ls. py_split p [NL] = Inr ls) (split_from [NL, NL] [] t)
          (map (split_from [NL] []) (split_from [NL, NL] [] t))"
    by (simp add: list_all2_map2 py_split_Inr list_all2_same)
  then show "\<exists>paragraphs liness.
      py_split t [NL, NL] = Inr paragraphs \<and>
      list_all2 (\<lambda>p ls. py_split p [NL] = Inr ls) paragraphs liness"
    by (auto simp: py_split_Inr)
next
  fix paragraphs liness
  assume p: "py_split t [NL, NL] = Inr paragraphs"
    and l: "list_all2 (\<lambda>p ls. py_split p [NL] = Inr ls) paragraphs liness"
  from l have "list_all2 (\<lambda>p ls. py_join [NL] ls = p) paragraphs liness"
    by (rule list_all2_mono) (auto simp: py_split_Inr py_join_split_from)
  then have "map (py_join [NL]) liness = paragraphs"
    by (induction rule: list_all2_induct) auto
  moreover from p have "paragraphs = split_from [NL, NL] [] t" by (simp add: py_split_Inr)
  ultimately show "py_join [NL, NL] (map (py_join [NL]) liness) = t"
    by (simp add: py_join_split_from)
next
  fix paragraphs liness content
  assume p: "py_split t [NL, NL] = Inr paragraphs"
    and l: "list_all2 (\<lambda>p ls. py_split p [NL] = Inr ls) paragraphs liness"
    and x: "extract_text_from_image e img = Inr t"
    and b: "build_content e [img] = Inr content"
  from build_content_texts[OF b] obtain texts
    where ts: "list_all2 (page_text e) [img] texts"
      and c: "content = concat (map (page_flowables (unicode_casing e)) texts)" by blast
  from ts obtain t' where t': "texts = [t']" "page_text e img t'"
    by (auto simp: list_all2_Cons1)
  with x have "t' = t" by (simp add: page_text_def)
  with c t' have c': "content = page_flowables (unicode_casing e) t" by simp
  from l have "list_all2 (\<lambda>p ls. ls = split_from [NL] [] p) paragraphs liness"
    by (rule list_all2_mono) (auto simp: py_split_Inr)
  then have ls: "liness = map (split_from [NL] []) paragraphs"
    by (induction rule: list_all2_induct) auto
  from p have ps: "split_from [NL, NL] [] t = paragraphs" by (simp add: py_split_Inr)
  show "content =
        concat (map (\<lambda>ls. map (line_flowable (unicode_casing e)) ls @ [Spacer 1 (0.2 * inch)])
                  liness) @ [PageBreak]"
    unfolding c' page_flowables_def ps ls
    by (simp add: paragraph_flowables_def[abs_def] comp_def)
qed

theorem split_join_roundtrip_witness:
  "py_split (lit ''a'' @ [NL, NL, NL] @ lit ''b'') [NL, NL] = Inr [lit ''a'', [NL] @ lit ''b''] \<and>
   list_all2 (\<lambda>p ls. py_split p [NL] = Inr ls) [lit ''a'', [NL] @ lit ''b'']
     [[lit ''a''], [[], lit ''b'']] \<and>
   py_join [NL, NL] (map (py_join [NL]) [[lit ''a''], [[], lit ''b'']]) =
     lit ''a'' @ [NL, NL, NL] @ lit ''b'' \<and>
   extract_text_from_image sample_env (lit ''a'' @ [NL, NL, NL] @ lit ''b'') =
     Inr (lit ''a'' @ [NL, NL, NL] @ lit ''b'') \<and>
   build_content sample_env [lit ''a'' @ [NL, NL, NL] @ lit ''b''] =
     Inr [Paragraph (lit ''a'') normal_style, Spacer 1 (0.2 * inch),
          Paragraph [] normal_style, Paragraph (lit ''b'') normal_style,
          Spacer 1 (0.2 * inch), PageBreak] \<and>
   [Paragraph (lit ''a'') normal_style, Spacer 1 (0.2 * inch),
    Paragraph [] normal_style, Paragraph (lit ''b'') normal_style,
    Spacer 1 (0.2 * inch), PageBreak] =
     concat (map (\<lambda>ls. map (line_flowable (unicode_casing sample_env)) ls @
                         [Spacer 1 (0.2 * inch)])
               [[lit ''a''], [[], lit ''b'']]) @ [PageBreak]"
proof -
  have x: "extract_text_from_image sample_env (lit ''a'' @ [NL, NL, NL] @ lit ''b'') =
     Inr (lit ''a'' @ [NL, NL, NL] @ lit ''b'')"
    by (simp add: pipeline_eval string_eval isspace_def)
  have b: "build_content sample_env [lit ''a'' @ [NL, NL, NL] @ lit ''b''] =
     Inr [Paragraph (lit ''a'') normal_style, Spacer 1 (0.2 * inch),
          Paragraph [] normal_style, Paragraph (lit ''b'') normal_style,
          Spacer 1 (0.2 * inch), PageBreak]"
    by (simp add: pipeline_eval string_eval title_eval)
  have p: "py_split (lit ''a'' @ [NL, NL, NL] @ lit ''b'') [NL, NL] =
      Inr [lit ''a'', [NL] @ lit ''b'']"
    by (simp add: py_split_def lit_def NL_def)
  have l: "list_all2 (\<lambda>p ls. py_split p [NL] = Inr ls) [lit ''a'', [NL] @ lit ''b'']
     [[lit ''a''], [[], lit ''b'']]"
    by (simp add: py_split_def lit_def NL_def)
  note t = split_join_roundtrip [of "lit ''a'' @ [NL, NL, NL] @ lit ''b''" sample_env
      "lit ''a'' @ [NL, NL, NL] @ lit ''b''"]
  from t p l
  have j: "py_join [NL, NL] (map (py_join [NL]) [[lit ''a''], [[], lit ''b'']]) =
     lit ''a'' @ [NL, NL, NL] @ lit ''b''"
    by blast
  from t p l x b
  have c: "[Paragraph (lit ''a'') normal_style, Spacer 1 (0.2 * inch),
    Paragraph [] normal_style, Paragraph (lit ''b'') normal_style,
    Spacer 1 (0.2 * inch), PageBreak] =
     concat (map (\<lambda>ls. map (line_flowable (unicode_casing sample_env)) ls @
                         [Spacer 1 (0.2 * inch)])
               [[lit ''a''], [[], lit ''b'']]) @ [PageBreak]"
    by blast
  from p l j x b c show ?thesis by blast
qed

text \<open>
  Claim C8, as amended. For a single page whose extracted text is
  \<^verbatim>\<open>"TITLE HERE\n\nBody text line one\nBody text line two"\<close>, the content is one
  title-styled paragraph \<^verbatim>\<open>TITLE HERE\<close>, a spacer, two normal-styled paragraphs, a second
  spacer (the one that closes the second paragraph), and a page break.
\<close>

theorem title_body_page:
  "extract_text_from_image e img = Inr sample_page \<Longrightarrow>
   build_content e [img] =
     Inr [Paragraph (lit ''TITLE HERE'') title_style, Spacer 1 (0.2 * inch),
          Paragraph (lit ''Body text line one'') normal_style,
          Paragraph (lit ''Body text line two'') normal_style, Spacer 1 (0.2 * inch),
          PageBreak]"
proof -
  assume x: "extract_text_from_image e img = Inr sample_page"
  have "page_accepted e sample_page"
    by (simp add: page_accepted_def paragraph_accepted_def sample_page_def plain_text_accepted
        plain_text_def AMP_def string_eval)
  with x have t: "page_text e img sample_page"
    by (simp add: page_text_def)
  have "page_flowables (unicode_casing e) sample_page =
     [Paragraph (lit ''TITLE HERE'') title_style, Spacer 1 (0.2 * inch),
          Paragraph (lit ''Body text line one'') normal_style,
          Paragraph (lit ''Body text line two'') normal_style, Spacer 1 (0.2 * inch),
          PageBreak]"
    by (simp add: page_flowables_def paragraph_flowables_def line_flowable_def sample_page_def
        string_eval title_eval)
  with build_content_single[OF t] show ?thesis by simp
qed

theorem title_body_page_witness:
  "extract_text_from_image sample_env sample_page = Inr sample_page \<and>
   build_content sample_env [sample_page] =
     Inr [Paragraph (lit ''TITLE HERE'') title_style, Spacer 1 (0.2 * inch),
          Paragraph (lit ''Body text line one'') normal_style,
          Paragraph (lit ''Body text line two'') normal_style, Spacer 1 (0.2 * inch),
          PageBreak]"
proof -
  have h: "extract_text_from_image sample_env sample_page = Inr sample_page"
    by (simp add: pipeline_eval string_eval isspace_def)
  from h title_body_page [OF h] show ?thesis by blast
qed

text \<open>
  The content that C8 lists as it stands (title, spacer, two paragraphs, page break) is
  not what is built: the spacer behind the second paragraph is missing from it.
\<close>

theorem title_body_page_counterexample:
  "extract_text_from_image sample_env sample_page = Inr sample_page \<and>
   build_content sample_env [sample_page] \<noteq>
     Inr [Paragraph (lit ''TITLE HERE'') title_style, Spacer 1 (0.2 * inch),
          Paragraph (lit ''Body text line one'') normal_style,
          Paragraph (lit ''Body text line two'') normal_style,
          PageBreak]"
  by (simp add: pipeline_eval string_eval title_eval)

text \<open>
  Claim C10. A page whose extracted text is empty still adds its section to the content,
  wherever the page stands: one empty paragraph in the normal style (which is not the
  title style), one spacer of 0.2 inch and one page break.
\<close>

theorem blank_page_section:
  "extract_text_from_image e img = Inr [] \<Longrightarrow>
   pages_loop e (img # rest) content =
     pages_loop e rest (content @ [Paragraph [] normal_style, Spacer 1 (0.2 * inch), PageBreak]) \<and>
   build_content e [img] = Inr [Paragraph [] normal_style, Spacer 1 (0.2 * inch), PageBreak] \<and>
   normal_style \<noteq> title_style \<and>
   \<not> is_title (unicode_casing e) (escape_paragraph_text [])"
proof -
  assume x: "extract_text_from_image e img = Inr []"
  have "page_accepted e []"
    by (simp add: page_accepted_def paragraph_accepted_def plain_text_accepted plain_text_def
        escape_paragraph_text_def)
  with x have t: "page_text e img []"
    by (simp add: page_text_def)
  have p: "page_flowables (unicode_casing e) [] =
      [Paragraph [] normal_style, Spacer 1 (0.2 * inch), PageBreak]"
    by (simp add: page_flowables_def paragraph_flowables_def line_flowable_def
        escape_paragraph_text_def is_title_def py_isupper_def)
  have "pages_loop e (img # rest) content =
     pages_loop e rest (content @ [Paragraph [] normal_style, Spacer 1 (0.2 * inch), PageBreak])"
    using pages_loop_Cons[OF t, of rest content] by (simp only: p)
  moreover have "build_content e [img] =
      Inr [Paragraph [] normal_style, Spacer 1 (0.2 * inch), PageBreak]"
    using build_content_single[OF t] by (simp only: p)
  moreover have "normal_style \<noteq> title_style"
    by (simp add: normal_style_def title_style_def)
  moreover have "\<not> is_title (unicode_casing e) (escape_paragraph_text [])"
    by (simp add: escape_paragraph_text_def is_title_def py_isupper_def)
  ultimately show ?thesis by blast
qed

theorem blank_page_section_witness:
  "extract_text_from_image sample_env [] = Inr [] \<and>
   pages_loop sample_env [[]] [PageBreak] =
     Inr [PageBreak, Paragraph [] normal_style, Spacer 1 (0.2 * inch), PageBreak] \<and>
   build_content sample_env [[]] =
     Inr [Paragraph [] normal_style, Spacer 1 (0.2 * inch), PageBreak]"
proof -
  have h: "extract_text_from_image sample_env [] = Inr []"
    by (simp add: pipeline_eval)
  from h blank_page_section [OF h, of "[]" "[PageBreak]"] show ?thesis by simp
qed

end
